theory Spec2Isabelle
  imports Main "HOL-Library.AList" "HOL-Library.Multiset"
begin

section \<open>Data model of \<open>cascading.service.ts\<close>\<close>

text \<open>
  A JavaScript object with string keys is the association list of its own properties.
  A configuration and a Cascade Map are given in the order in which \<open>Object.keys\<close>,
  \<open>Object.values\<close> and \<open>Object.entries\<close> enumerate them: \<open>Object.keys\<close> is \<open>map fst\<close>,
  \<open>Object.values\<close> is \<open>map snd\<close>. An own-property read \<open>o[k]\<close> is \<open>map_of o k\<close> with
  \<open>None\<close> for \<open>undefined\<close>, \<open>o.hasOwnProperty(k)\<close> is \<open>map_of o k \<noteq> None\<close>, and the
  assignment \<open>o[k] = v\<close> is \<open>AList.update k v o\<close>, which keeps the position of an
  existing key and appends a new one, so an object built by assignments is held in
  insertion order; \<open>objectEntries\<close> below enumerates such an object. A read that is not
  guarded by \<open>hasOwnProperty\<close> also finds the members that every object inherits from
  \<open>Object.prototype\<close> (see \<open>leaf\<close>). Field reference names are assumed not to be
  property names of the built-in objects.

  The leaf of a Cascade Definition is a string (the sentinel, or hint text under a
  reserved key) or an array of strings; a read of a missing leaf is \<open>undefined\<close>.
\<close>

datatype jsval = JSUndefined | JSString string | JSArray "string list"

type_synonym CascadeDefinition = "(string \<times> jsval) list"

type_synonym CascadeRuleSet = "(string \<times> CascadeDefinition) list"

type_synonym CascadeConfiguration = "(string \<times> CascadeRuleSet) list"

record ICascade =
  alters :: "string list"
  cascades :: CascadeRuleSet

type_synonym CascadeMap = "(string \<times> ICascade) list"

type_synonym FieldOptions = "(string \<times> jsval) list"

text \<open>
  A rejected promise or a thrown exception is a value: \<open>TypeError\<close> is the property read
  on \<open>undefined\<close>, \<open>Rejected\<close> a collaborator's rejection with its reason.
\<close>

datatype error = TypeError | Rejected string

text \<open>
  A field value read from the host is a string or absent; \<open>!fieldValue\<close> holds for the
  absent value and for the empty string.
\<close>

definition falsy :: "string option \<Rightarrow> bool" where
  "falsy v = (v = None \<or> v = Some [])"

subsection \<open>Enumeration order and inherited members\<close>

text \<open>
  \<open>Object.entries\<close> of an object lists the keys that are array indices first, in
  ascending numeric order, and then the other keys in insertion order. An array index is
  the canonical decimal numeral of an integer below \<open>2\<^sup>3\<^sup>2 - 1\<close>.
\<close>

definition isDigit :: "char \<Rightarrow> bool" where
  "isDigit c = (c \<in> set ''0123456789'')"

definition decimalValue :: "string \<Rightarrow> nat" where
  "decimalValue s = foldl (\<lambda>n c. 10 * n + (of_char c - 48)) 0 s"

definition arrayIndex :: "string \<Rightarrow> nat option" where
  "arrayIndex s =
     (if s \<noteq> [] \<and> list_all isDigit s \<and> (s = ''0'' \<or> hd s \<noteq> CHR ''0'') \<and>
         decimalValue s < 4294967295
      then Some (decimalValue s) else None)"

definition objectEntries :: "(string \<times> 'v) list \<Rightarrow> (string \<times> 'v) list" where
  "objectEntries obj =
     sort_key (\<lambda>(k, v). the (arrayIndex k)) (filter (\<lambda>(k, v). arrayIndex k \<noteq> None) obj) @
     filter (\<lambda>(k, v). arrayIndex k = None) obj"

text \<open>The names of the members of \<open>Object.prototype\<close>.\<close>

definition objectPrototypeNames :: "string list" where
  "objectPrototypeNames =
     [''constructor'', ''hasOwnProperty'', ''isPrototypeOf'', ''propertyIsEnumerable'',
      ''toLocaleString'', ''toString'', ''valueOf'', ''__defineGetter__'', ''__defineSetter__'',
      ''__lookupGetter__'', ''__lookupSetter__'', ''__proto__'']"

subsection \<open>lodash\<close>

text \<open>
  \<open>uniq\<close> keeps the first occurrence of every element, in the order of the array.
  \<open>baseUniq seen xs\<close> is its loop: \<open>seen\<close> holds what has been pushed already.
\<close>

fun baseUniq :: "'a list \<Rightarrow> 'a list \<Rightarrow> 'a list" where
  "baseUniq seen [] = []"
| "baseUniq seen (x # xs) =
     (if x \<in> set seen then baseUniq seen xs else x # baseUniq (x # seen) xs)"

definition uniq :: "'a list \<Rightarrow> 'a list" where
  "uniq xs = baseUniq [] xs"

text \<open>
  \<open>intersection(a, b)\<close> casts every argument that is not an array to \<open>[]\<close>, returns \<open>[]\<close>
  when the first argument was cast, and otherwise the unique values of the first array
  that the second includes, in the order of the first.
\<close>

definition castArrayLikeObject :: "jsval \<Rightarrow> string list" where
  "castArrayLikeObject v = (case v of JSArray xs \<Rightarrow> xs | _ \<Rightarrow> [])"

definition intersection :: "jsval \<Rightarrow> jsval \<Rightarrow> jsval" where
  "intersection a b =
     (case a of
        JSArray xs \<Rightarrow> JSArray (uniq (filter (\<lambda>x. x \<in> set (castArrayLikeObject b)) xs))
      | _ \<Rightarrow> JSArray [])"

section \<open>CascadingFieldsService\<close>

subsection \<open>createCascadingMap\<close>

text \<open>
  \<open>RESERVED_FIELD_NAMES\<close> is imported from \<open>./types\<close>; it is the parameter \<open>rsv\<close>.
  \<open>collectAlters\<close> is the body of the outer callback up to \<open>alters = uniq(alters)\<close>:
  every definition pushes its non-reserved keys in order.
\<close>

definition collectAlters :: "string list \<Rightarrow> CascadeRuleSet \<Rightarrow> string list" where
  "collectAlters rsv fieldValues =
     uniq (concat (map (\<lambda>cascadeDefinitions.
                          filter (\<lambda>field. field \<notin> set rsv) (map fst cascadeDefinitions))
                       (map snd fieldValues)))"

definition createCascadingMap ::
  "string list \<Rightarrow> CascadeConfiguration option \<Rightarrow> CascadeMap" where
  "createCascadingMap rsv cascadeConfiguration =
     (case cascadeConfiguration of
        None \<Rightarrow> []
      | Some cfg \<Rightarrow>
          foldl (\<lambda>cascadeMap (fieldName, fieldValues).
                   AList.update fieldName
                     \<lparr>alters = collectAlters rsv fieldValues, cascades = fieldValues\<rparr>
                     cascadeMap)
                [] cfg)"

subsection \<open>getAffectedFields\<close>

text \<open>
  \<open>this.cascadeMap[fieldReferenceName].cascades\<close> throws a \<open>TypeError\<close> when the field is
  not a key of the map.
\<close>

definition getAffectedFields ::
  "string list \<Rightarrow> CascadeMap \<Rightarrow> string \<Rightarrow> string option \<Rightarrow> error + string list" where
  "getAffectedFields rsv cascadeMap fieldReferenceName fieldValue =
     (case map_of cascadeMap fieldReferenceName of
        None \<Rightarrow> Inl TypeError
      | Some entry \<Rightarrow>
          if falsy fieldValue then
            Inr (filter (\<lambda>k. k \<notin> set rsv)
                   (uniq (concat (map (\<lambda>cascade. map fst cascade)
                                      (map snd (cascades entry))))))
          else
            (case map_of (cascades entry) (the fieldValue) of
               Some definition \<Rightarrow>
                 Inr (filter (\<lambda>field. field \<notin> set rsv) (map fst definition))
             | None \<Rightarrow> Inr []))"

section \<open>The host form and the hint collaborator\<close>

text \<open>
  The form service is the host's: its state \<open>'h\<close> and what its operations do are
  parameters. The three reads leave the host state as it is; the three writes return the
  new one. A pass is taken on its own: the host state changes only through the calls the
  pass issues, and field values are strings, as the casts \<open>as string\<close> say. Calls to
  the form service are taken to resolve; the hint collaborator (\<open>hints.service.ts\<close>)
  returns the host state it leaves behind and, when its promise rejects, the error.
\<close>

record 'h IWorkItemFormService =
  getFieldValue :: "'h \<Rightarrow> string \<Rightarrow> string option"
  getAllowedFieldValues :: "'h \<Rightarrow> string \<Rightarrow> string list"
  getFilteredAllowedFieldValues :: "'h \<Rightarrow> string \<Rightarrow> string list"
  filterAllowedFieldValues :: "string \<Rightarrow> jsval \<Rightarrow> 'h \<Rightarrow> 'h"
  setError :: "string \<Rightarrow> 'h \<Rightarrow> 'h"
  clearError :: "'h \<Rightarrow> 'h"

type_synonym 'h HintService =
  "CascadeMap \<Rightarrow> string \<Rightarrow> string option \<Rightarrow> 'h \<Rightarrow> error option \<times> 'h"

text \<open>
  A run carries the host state and the sequence of state-changing calls issued so far
  (the hint with its field and value; the Cascade Map argument is always \<open>this.cascadeMap\<close>).
\<close>

datatype call =
    ClearError
  | HintFieldValue string "string option"
  | FilterAllowedFieldValues string jsval
  | SetError string

record 'h form =
  host :: 'h
  calls :: "call list"

subsection \<open>prepareCascadeOptions\<close>

text \<open>
  \<open>optionalLeaf\<close> is \<open>cascades[fieldValue]?.[field]\<close>; \<open>leaf\<close> is
  \<open>cascades[fieldValue][field]\<close>, which throws when \<open>cascades[fieldValue]\<close> is
  \<open>undefined\<close>. When \<open>fieldValue\<close> is not a key of the rule set but names a member of
  \<open>Object.prototype\<close>, \<open>cascades[fieldValue]\<close> is that inherited member, and its property
  \<open>field\<close> is \<open>undefined\<close>: both reads give \<open>undefined\<close> and neither throws.
\<close>

definition optionalLeaf :: "CascadeRuleSet \<Rightarrow> string \<Rightarrow> string \<Rightarrow> jsval" where
  "optionalLeaf cs fieldValue field =
     (case map_of cs fieldValue of
        None \<Rightarrow> JSUndefined
      | Some d \<Rightarrow> (case map_of d field of None \<Rightarrow> JSUndefined | Some v \<Rightarrow> v))"

definition leaf :: "CascadeRuleSet \<Rightarrow> string \<Rightarrow> string \<Rightarrow> error + jsval" where
  "leaf cs fieldValue field =
     (case map_of cs fieldValue of
        None \<Rightarrow> if fieldValue \<in> set objectPrototypeNames then Inr JSUndefined else Inl TypeError
      | Some d \<Rightarrow> Inr (case map_of d field of None \<Rightarrow> JSUndefined | Some v \<Rightarrow> v))"

text \<open>
  \<open>FieldOptionsFlags.All\<close> is imported from \<open>./types\<close>; it is the parameter \<open>allFlag\<close>.
  \<open>cascadeOptions\<close> is the block that assigns \<open>cascadeOptions\<close> (lines 111 to 123),
  \<open>accumulate\<close> the block that merges it into \<open>fieldValues\<close> (lines 125 to 129).
\<close>

definition cascadeOptions ::
  "string \<Rightarrow> 'h IWorkItemFormService \<Rightarrow> 'h \<Rightarrow> string \<Rightarrow> string \<Rightarrow> ICascade \<Rightarrow> error + jsval" where
  "cascadeOptions allFlag svc h field alterField cascade =
     (let fieldValue = getFieldValue svc h alterField in
      if falsy fieldValue \<or>
         optionalLeaf (cascades cascade) (the fieldValue) field = JSString allFlag
      then Inr (JSArray (getAllowedFieldValues svc h field))
      else leaf (cascades cascade) (the fieldValue) field)"

definition accumulate :: "string \<Rightarrow> jsval \<Rightarrow> FieldOptions \<Rightarrow> FieldOptions" where
  "accumulate field opts fieldValues =
     (case map_of fieldValues field of
        Some prev \<Rightarrow> AList.update field (intersection prev opts) fieldValues
      | None \<Rightarrow> AList.update field opts fieldValues)"

text \<open>
  One task per affected field and entry of the Cascade Map, in the order in which
  \<open>flatten(affectedFields.map(... Object.entries(this.cascadeMap).map(...)))\<close> creates them.
\<close>

type_synonym task = "string \<times> string \<times> ICascade"

definition cascadeTasks :: "CascadeMap \<Rightarrow> string list \<Rightarrow> task list" where
  "cascadeTasks cascadeMap affectedFields =
     concat (map (\<lambda>field. map (\<lambda>(alterField, cascade). (field, alterField, cascade)) cascadeMap)
                 affectedFields)"

definition cascadeTask ::
  "string \<Rightarrow> 'h IWorkItemFormService \<Rightarrow> 'h \<Rightarrow> FieldOptions \<Rightarrow> task \<Rightarrow> error + FieldOptions" where
  "cascadeTask allFlag svc h fieldValues t =
     (case t of (field, alterField, cascade) \<Rightarrow>
        if field \<in> set (alters cascade) then
          (case cascadeOptions allFlag svc h field alterField cascade of
             Inl e \<Rightarrow> Inl e
           | Inr opts \<Rightarrow> Inr (accumulate field opts fieldValues))
        else Inr fieldValues)"

text \<open>
  The tasks run concurrently under \<open>Promise.all\<close>. Each suspends at its host reads; its
  merge into \<open>fieldValues\<close> has no \<open>await\<close> inside and runs as one step. \<open>runTasks\<close>
  performs the merges in the order of its task list; a task that throws rejects the
  whole \<open>Promise.all\<close>. The order in which the host lets the tasks resume is the
  parameter \<open>sched\<close>, a rearrangement of the created tasks.
\<close>

fun runTasks ::
  "string \<Rightarrow> 'h IWorkItemFormService \<Rightarrow> 'h \<Rightarrow> FieldOptions \<Rightarrow> task list \<Rightarrow> error + FieldOptions" where
  "runTasks allFlag svc h fieldValues [] = Inr fieldValues"
| "runTasks allFlag svc h fieldValues (t # ts) =
     (case cascadeTask allFlag svc h fieldValues t of
        Inl e \<Rightarrow> Inl e
      | Inr fieldValues' \<Rightarrow> runTasks allFlag svc h fieldValues' ts)"

definition prepareCascadeOptions ::
  "string \<Rightarrow> 'h IWorkItemFormService \<Rightarrow> (task list \<Rightarrow> task list) \<Rightarrow> CascadeMap \<Rightarrow> 'h \<Rightarrow>
   string list \<Rightarrow> error + FieldOptions" where
  "prepareCascadeOptions allFlag svc sched cascadeMap h affectedFields =
     runTasks allFlag svc h [] (sched (cascadeTasks cascadeMap affectedFields))"

subsection \<open>validateFilter and performCascading\<close>

definition validateFilter :: "'h IWorkItemFormService \<Rightarrow> 'h \<Rightarrow> string \<Rightarrow> bool" where
  "validateFilter svc h fieldReferenceName =
     (let allowedValues = getFilteredAllowedFieldValues svc h fieldReferenceName;
          fieldValue = getFieldValue svc h fieldReferenceName
      in falsy fieldValue \<or> the fieldValue \<in> set allowedValues)"

definition invalidMessage :: "string \<Rightarrow> string" where
  "invalidMessage fieldReferenceName =
     ''Field '' @ [CHR 0x27] @ fieldReferenceName @ [CHR 0x27] @ '' value is invalid''"

text \<open>
  The \<open>for ... of\<close> loop of \<open>performCascading\<close>, over the list that
  \<open>Object.entries(fieldValues)\<close> gives.
\<close>

fun filterEntries :: "'h IWorkItemFormService \<Rightarrow> FieldOptions \<Rightarrow> 'h form \<Rightarrow> 'h form" where
  "filterEntries svc [] w = w"
| "filterEntries svc ((fieldReferenceName, values) # rest) w =
     (let w1 = \<lparr>host = filterAllowedFieldValues svc fieldReferenceName values (host w),
                calls = calls w @ [FilterAllowedFieldValues fieldReferenceName values]\<rparr>
      in if validateFilter svc (host w1) fieldReferenceName
         then filterEntries svc rest w1
         else \<lparr>host = setError svc (invalidMessage fieldReferenceName) (host w1),
               calls = calls w1 @ [SetError (invalidMessage fieldReferenceName)]\<rparr>)"

definition performCascading ::
  "string list \<Rightarrow> string \<Rightarrow> 'h IWorkItemFormService \<Rightarrow> 'h HintService \<Rightarrow>
   (task list \<Rightarrow> task list) \<Rightarrow> CascadeMap \<Rightarrow> string \<Rightarrow> 'h form \<Rightarrow> (error + unit) \<times> 'h form" where
  "performCascading rsv allFlag svc hintFieldValue sched cascadeMap changedFieldReferenceName w =
     (let changedFieldValue = getFieldValue svc (host w) changedFieldReferenceName;
          w1 = \<lparr>host = clearError svc (host w), calls = calls w @ [ClearError]\<rparr>
      in if map_of cascadeMap changedFieldReferenceName = None then (Inr (), w1)
         else
           (case hintFieldValue cascadeMap changedFieldReferenceName changedFieldValue (host w1) of
              (failure, h2) \<Rightarrow>
                (let w2 = \<lparr>host = h2,
                           calls = calls w1 @
                             [HintFieldValue changedFieldReferenceName changedFieldValue]\<rparr>
                 in case failure of
                      Some e \<Rightarrow> (Inl e, w2)
                    | None \<Rightarrow>
                        (case getAffectedFields rsv cascadeMap changedFieldReferenceName
                                changedFieldValue of
                           Inl e \<Rightarrow> (Inl e, w2)
                         | Inr affectedFields \<Rightarrow>
                             (case prepareCascadeOptions allFlag svc sched cascadeMap (host w2)
                                     affectedFields of
                                Inl e \<Rightarrow> (Inl e, w2)
                              | Inr fieldValues \<Rightarrow>
                                  (Inr (), filterEntries svc (objectEntries fieldValues) w2))))))"

section \<open>CascadeValidationService\<close>

text \<open>
  \<open>fieldList\<close> is the list of reference names of the project's field catalog, as fetched
  and cached by the service. \<open>Object.keys\<close> of an absent configuration throws. The result
  \<open>null\<close> is \<open>None\<close>.
\<close>

definition validateCascades ::
  "string list \<Rightarrow> string list \<Rightarrow> CascadeConfiguration option \<Rightarrow> error + string list option" where
  "validateCascades rsv fieldList cascadeConfiguration =
     (case cascadeConfiguration of
        None \<Rightarrow> Inl TypeError
      | Some cfg \<Rightarrow>
          (let invalidFieldsRoot = filter (\<lambda>field. field \<notin> set fieldList) (map fst cfg);
               invalidFieldsTotal =
                 foldl (\<lambda>acc fieldValues.
                          foldl (\<lambda>acc innerFields.
                                   acc @ filter (\<lambda>field. field \<notin> set rsv \<and> field \<notin> set fieldList)
                                                  (map fst innerFields))
                                acc (map snd fieldValues))
                       invalidFieldsRoot (map snd cfg)
           in if length invalidFieldsTotal > 0 then Inr (Some invalidFieldsTotal) else Inr None))"

section \<open>Reference notions of the specification\<close>

text \<open>
  These follow the words of the specification; the theorems below compare them with the
  functions above, which follow the source.
\<close>

text \<open>The parents that constrain \<open>F\<close>: the entries of the Cascade Map whose \<open>alters\<close> has it.\<close>

definition constrainingParents :: "CascadeMap \<Rightarrow> string \<Rightarrow> (string \<times> ICascade) list" where
  "constrainingParents cascadeMap F = filter (\<lambda>(P, c). F \<in> set (alters c)) cascadeMap"

text \<open>
  The permitted values of \<open>F\<close> for a parent \<open>P\<close> with host value \<open>v\<close>: the full schema-defined
  set when \<open>v\<close> is empty or the \<open>(v, F)\<close> entry is the sentinel, otherwise the explicit list
  stored at \<open>cascades[v][F]\<close>, and \<open>None\<close> where no such list is stored.
\<close>

definition spec_permitted ::
  "string \<Rightarrow> 'h IWorkItemFormService \<Rightarrow> 'h \<Rightarrow> string \<Rightarrow> string \<times> ICascade \<Rightarrow> string list option" where
  "spec_permitted allFlag svc h F pc =
     (case pc of (P, c) \<Rightarrow>
        (case getFieldValue svc h P of
           None \<Rightarrow> Some (getAllowedFieldValues svc h F)
         | Some v \<Rightarrow>
             if v = [] then Some (getAllowedFieldValues svc h F)
             else (case map_of (cascades c) v of
                     None \<Rightarrow> None
                   | Some d \<Rightarrow>
                       (case map_of d F of
                          Some (JSArray xs) \<Rightarrow> Some xs
                        | Some (JSString s) \<Rightarrow>
                            if s = allFlag then Some (getAllowedFieldValues svc h F) else None
                        | _ \<Rightarrow> None))))"

text \<open>Two computed options are the same set of allowed values.\<close>

definition sameOptions :: "jsval option \<Rightarrow> jsval option \<Rightarrow> bool" where
  "sameOptions a b =
     (case (a, b) of
        (Some (JSArray xs), Some (JSArray ys)) \<Rightarrow> set xs = set ys
      | _ \<Rightarrow> a = b)"

text \<open>The non-reserved keys of every nested Cascade Definition, in configuration order.\<close>

definition spec_nestedKeys :: "string list \<Rightarrow> CascadeConfiguration \<Rightarrow> string list" where
  "spec_nestedKeys rsv cfg =
     concat (map (\<lambda>rules. concat (map (\<lambda>d. filter (\<lambda>k. k \<notin> set rsv) (map fst d))
                                       (map snd rules)))
                 (map snd cfg))"

text \<open>The host after the filters of a list of Field Options entries, applied in order.\<close>

definition applyFilters :: "'h IWorkItemFormService \<Rightarrow> FieldOptions \<Rightarrow> 'h \<Rightarrow> 'h" where
  "applyFilters svc entries h =
     foldl (\<lambda>h' (name, values). filterAllowedFieldValues svc name values h') h entries"

definition filterCalls :: "FieldOptions \<Rightarrow> call list" where
  "filterCalls entries = map (\<lambda>(name, values). FilterAllowedFieldValues name values) entries"

text \<open>
  An entry is valid when it is reached: the host value of its field passes
  \<open>validateFilter\<close> after the filters of the entries before it and its own.
\<close>

definition validWhenReached ::
  "'h IWorkItemFormService \<Rightarrow> 'h \<Rightarrow> FieldOptions \<Rightarrow> nat \<Rightarrow> bool" where
  "validWhenReached svc h entries i =
     validateFilter svc (applyFilters svc (take (Suc i) entries) h) (fst (entries ! i))"

section \<open>What a task contributes\<close>

text \<open>
  A task is active for \<open>F\<close> when it was created for \<open>F\<close> and its parent alters \<open>F\<close>; it
  faults when it is active and its lookup throws; otherwise it contributes the options
  it looked up. \<open>merge\<close> is \<open>accumulate\<close> seen at one key.
\<close>

definition activeFor :: "string \<Rightarrow> task \<Rightarrow> bool" where
  "activeFor F t = (case t of (field, alterField, cascade) \<Rightarrow> field = F \<and> field \<in> set (alters cascade))"

definition taskFaults :: "string \<Rightarrow> 'h IWorkItemFormService \<Rightarrow> 'h \<Rightarrow> task \<Rightarrow> bool" where
  "taskFaults allFlag svc h t =
     (case t of (field, alterField, cascade) \<Rightarrow>
        field \<in> set (alters cascade) \<and> isl (cascadeOptions allFlag svc h field alterField cascade))"

definition taskValue :: "string \<Rightarrow> 'h IWorkItemFormService \<Rightarrow> 'h \<Rightarrow> task \<Rightarrow> jsval" where
  "taskValue allFlag svc h t =
     (case t of (field, alterField, cascade) \<Rightarrow>
        (case cascadeOptions allFlag svc h field alterField cascade of
           Inr opts \<Rightarrow> opts
         | Inl e \<Rightarrow> JSUndefined))"

definition contributions ::
  "string \<Rightarrow> 'h IWorkItemFormService \<Rightarrow> 'h \<Rightarrow> string \<Rightarrow> task list \<Rightarrow> jsval list" where
  "contributions allFlag svc h F ts = map (taskValue allFlag svc h) (filter (activeFor F) ts)"

abbreviation arr :: "jsval \<Rightarrow> string set" where
  "arr v \<equiv> set (castArrayLikeObject v)"

definition merge :: "jsval option \<Rightarrow> jsval \<Rightarrow> jsval option" where
  "merge prev opts = Some (case prev of None \<Rightarrow> opts | Some p \<Rightarrow> intersection p opts)"

section \<open>An in-memory form for concrete runs\<close>

text \<open>
  A small host: field values, schema-defined allowed values, the filters applied and
  the error shown. Its filtered allowed values are the schema's, restricted to the
  filter when the filter is an array.
\<close>

record memHost =
  hValues :: "(string \<times> string) list"
  hAllowed :: "(string \<times> string list) list"
  hFilters :: "(string \<times> jsval) list"
  hError :: "string option"

definition memAllowed :: "memHost \<Rightarrow> string \<Rightarrow> string list" where
  "memAllowed h name = (case map_of (hAllowed h) name of None \<Rightarrow> [] | Some xs \<Rightarrow> xs)"

definition memFiltered :: "memHost \<Rightarrow> string \<Rightarrow> string list" where
  "memFiltered h name =
     (case map_of (hFilters h) name of
        Some (JSArray xs) \<Rightarrow> filter (\<lambda>x. x \<in> set xs) (memAllowed h name)
      | _ \<Rightarrow> memAllowed h name)"

definition memService :: "memHost IWorkItemFormService" where
  "memService =
     \<lparr>getFieldValue = (\<lambda>h name. map_of (hValues h) name),
      getAllowedFieldValues = memAllowed,
      getFilteredAllowedFieldValues = memFiltered,
      filterAllowedFieldValues = (\<lambda>name values h. h\<lparr>hFilters := AList.update name values (hFilters h)\<rparr>),
      setError = (\<lambda>message h. h\<lparr>hError := Some message\<rparr>),
      clearError = (\<lambda>h. h\<lparr>hError := None\<rparr>)\<rparr>"

definition quietHint :: "memHost HintService" where
  "quietHint cascadeMap fieldName fieldValue h = (None, h)"

definition failingHint :: "memHost HintService" where
  "failingHint cascadeMap fieldName fieldValue h = (Some (Rejected ''hint''), h)"

text \<open>Two parents that both restrict \<open>F\<close>, and a form on which both are set.\<close>

definition twoParents :: CascadeConfiguration where
  "twoParents =
     [(''P1'', [(''x'', [(''F'', JSArray [''a'', ''b'', ''c''])])]),
      (''P2'', [(''y'', [(''F'', JSArray [''b'', ''c'', ''d''])]),
                (''w'', [(''G'', JSArray [''g''])])])]"

definition formOf :: "(string \<times> string) list \<Rightarrow> memHost" where
  "formOf vs =
     \<lparr>hValues = vs,
      hAllowed = [(''F'', [''a'', ''b'', ''c'', ''d'']), (''G'', [''g'', ''h'']),
                  (''X'', [''1'', ''2'']), (''Y'', [''y1''])],
      hFilters = [],
      hError = Some ''stale''\<rparr>"

text \<open>One parent whose definitions carry a reserved key and share a dependent field.\<close>

definition hinted :: CascadeConfiguration where
  "hinted =
     [(''P'', [(''a'', [(''X'', JSArray [''1'']), (''hint'', JSString ''pick X'')]),
               (''b'', [(''Y'', JSArray []), (''X'', JSString ''All'')])])]"

text \<open>A configuration in which the dependent field \<open>X\<close> occurs three times.\<close>

definition repeated :: CascadeConfiguration where
  "repeated =
     [(''P'', [(''a'', [(''X'', JSArray [''1'']), (''hint'', JSString ''pick X'')]),
               (''b'', [(''X'', JSString ''All''), (''Q'', JSArray [])])]),
      (''X'', [(''1'', [(''Q'', JSArray [''q''])])])]"

section \<open>Properties of the lodash functions\<close>

lemma set_baseUniq: "set (baseUniq seen xs) = set xs - set seen"
  by (induction xs arbitrary: seen) auto

lemma distinct_baseUniq: "distinct (baseUniq seen xs)"
  by (induction xs arbitrary: seen) (auto simp: set_baseUniq)

lemma set_uniq: "set (uniq xs) = set xs"
  by (simp add: uniq_def set_baseUniq)

lemma distinct_uniq: "distinct (uniq xs)"
  by (simp add: uniq_def distinct_baseUniq)

section \<open>The example Cascade Maps and the unfolding of a concrete run\<close>

lemma createCascadingMap_twoParents: "createCascadingMap [''hint''] (Some twoParents) =
   [(''P1'', \<lparr>alters = [''F''], cascades = [(''x'', [(''F'', JSArray [''a'', ''b'', ''c''])])]\<rparr>),
    (''P2'', \<lparr>alters = [''F'', ''G''],
              cascades = [(''y'', [(''F'', JSArray [''b'', ''c'', ''d''])]),
                          (''w'', [(''G'', JSArray [''g''])])]\<rparr>)]"
  by (simp add: createCascadingMap_def twoParents_def collectAlters_def uniq_def)

lemma createCascadingMap_hinted: "createCascadingMap [''hint''] (Some hinted) =
   [(''P'', \<lparr>alters = [''X'', ''Y''],
             cascades = [(''a'', [(''X'', JSArray [''1'']), (''hint'', JSString ''pick X'')]),
                         (''b'', [(''Y'', JSArray []), (''X'', JSString ''All'')])]\<rparr>)]"
  by (simp add: createCascadingMap_def hinted_def collectAlters_def uniq_def)

lemma objectEntries_indices_first:
  "objectEntries [(''10'', a), (''x'', b), (''2'', c), (''02'', d)] =
     [(''2'', c), (''10'', a), (''x'', b), (''02'', d)]"
  by (simp add: objectEntries_def arrayIndex_def isDigit_def decimalValue_def)

lemmas run_defs = prepareCascadeOptions_def cascadeTasks_def cascadeTask_def cascadeOptions_def
  accumulate_def memService_def memAllowed_def memFiltered_def formOf_def falsy_def
  optionalLeaf_def leaf_def intersection_def castArrayLikeObject_def uniq_def
  performCascading_def getAffectedFields_def validateFilter_def quietHint_def failingHint_def
  invalidMessage_def objectEntries_def arrayIndex_def isDigit_def decimalValue_def
  objectPrototypeNames_def

section \<open>The Cascade Map Builder\<close>

lemma update_fresh: "k \<notin> fst ` set al \<Longrightarrow> AList.update k v al = al @ [(k, v)]"
  by (induction al) auto

lemma foldl_update_distinct:
  "distinct (map fst cfg) \<Longrightarrow> fst ` set acc \<inter> fst ` set cfg = {} \<Longrightarrow>
   foldl (\<lambda>m (k, v). AList.update k (f v) m) acc cfg = acc @ map (\<lambda>(k, v). (k, f v)) cfg"
proof (induction cfg arbitrary: acc)
  case Nil
  then show ?case by simp
next
  case (Cons p cfg)
  obtain k v where p: "p = (k, v)" by (cases p)
  from Cons.prems have fresh: "k \<notin> fst ` set acc" by (auto simp: p)
  have "fst ` set (acc @ [(k, f v)]) \<inter> fst ` set cfg = {}"
    using Cons.prems by (auto simp: p)
  moreover have "distinct (map fst cfg)" using Cons.prems by simp
  ultimately show ?case
    using Cons.IH[of "acc @ [(k, f v)]"] fresh by (simp add: p update_fresh)
qed

lemma createCascadingMap_Some:
  assumes "distinct (map fst cfg)"
  shows "createCascadingMap rsv (Some cfg) =
           map (\<lambda>(k, v). (k, \<lparr>alters = collectAlters rsv v, cascades = v\<rparr>)) cfg"
  using foldl_update_distinct[OF assms, of "[]" "\<lambda>v. \<lparr>alters = collectAlters rsv v, cascades = v\<rparr>"]
  by (simp add: createCascadingMap_def)

lemma set_collectAlters:
  "set (collectAlters rsv fieldValues) = (\<Union>d \<in> snd ` set fieldValues. fst ` set d) - set rsv"
  by (auto simp: collectAlters_def set_uniq)

lemma distinct_collectAlters: "distinct (collectAlters rsv fieldValues)"
  by (simp add: collectAlters_def distinct_uniq)

lemma map_of_map_entry:
  "(k, v) \<in> set cfg \<Longrightarrow> distinct (map fst cfg) \<Longrightarrow>
   map_of (map (\<lambda>(k, v). (k, f v)) cfg) k = Some (f v)"
  by (induction cfg) (auto simp: rev_image_eqI)

text \<open>
  Claim C4. An absent configuration gives the empty map. A configuration (an object, so
  its parent fields are distinct keys) gives a map with the same parent fields in the
  same order; the entry of each parent field has as \<open>alters\<close> the keys of all its
  Cascade Definitions that are not reserved, without duplicates and with no reserved
  name, and as \<open>cascades\<close> the parent's rule set as it was.
\<close>

theorem createCascadingMap_entries:
  assumes "distinct (map fst cfg)"
  shows "createCascadingMap rsv None = [] \<and>
         map fst (createCascadingMap rsv (Some cfg)) = map fst cfg \<and>
         (\<forall>(fieldName, fieldValues) \<in> set cfg.
            \<exists>entry. map_of (createCascadingMap rsv (Some cfg)) fieldName = Some entry \<and>
              set (alters entry) = (\<Union>d \<in> snd ` set fieldValues. fst ` set d) - set rsv \<and>
              set (alters entry) \<inter> set rsv = {} \<and>
              distinct (alters entry) \<and>
              cascades entry = fieldValues)"
proof -
  have a: "createCascadingMap rsv None = []" by (simp add: createCascadingMap_def)
  have b: "map fst (createCascadingMap rsv (Some cfg)) = map fst cfg"
    by (simp add: createCascadingMap_Some[OF assms] case_prod_unfold comp_def)
  have c: "\<exists>entry. map_of (createCascadingMap rsv (Some cfg)) k = Some entry \<and>
              set (alters entry) = (\<Union>d \<in> snd ` set v. fst ` set d) - set rsv \<and>
              set (alters entry) \<inter> set rsv = {} \<and>
              distinct (alters entry) \<and> cascades entry = v" if "(k, v) \<in> set cfg" for k v
  proof -
    have "set (collectAlters rsv v) \<inter> set rsv = {}"
      by (auto simp: set_collectAlters)
    then show ?thesis
      using map_of_map_entry[OF that assms, of "\<lambda>v. \<lparr>alters = collectAlters rsv v, cascades = v\<rparr>"]
      by (simp add: createCascadingMap_Some[OF assms] set_collectAlters distinct_collectAlters)
  qed
  from a b c show ?thesis by blast
qed

theorem createCascadingMap_entries_witness:
  "distinct (map fst hinted) \<and>
   createCascadingMap [''hint''] None = [] \<and>
   map fst (createCascadingMap [''hint''] (Some hinted)) = [''P''] \<and>
   (\<exists>entry. map_of (createCascadingMap [''hint''] (Some hinted)) ''P'' = Some entry \<and>
      set (alters entry) = {''X'', ''Y''} \<and> set (alters entry) \<inter> {''hint''} = {} \<and>
      distinct (alters entry))"
proof -
  have d: "distinct (map fst hinted)" by (simp add: hinted_def)
  have k: "map fst hinted = [''P'']" by (simp add: hinted_def)
  define rules where "rules = snd (hd hinted)"
  have m: "(''P'', rules) \<in> set hinted" by (simp add: hinted_def rules_def)
  have u: "(\<Union>d \<in> snd ` set rules. fst ` set d) - set [''hint''] = {''X'', ''Y''}"
    by (auto simp: hinted_def rules_def)
  note t = createCascadingMap_entries[OF d, of "[''hint'']"]
  from t have a: "createCascadingMap [''hint''] None = []" by (rule conjunct1)
  from t have b: "map fst (createCascadingMap [''hint''] (Some hinted)) = [''P'']"
    using k by simp
  from t have "\<forall>(fieldName, fieldValues) \<in> set hinted.
            \<exists>entry. map_of (createCascadingMap [''hint''] (Some hinted)) fieldName = Some entry \<and>
              set (alters entry) = (\<Union>d \<in> snd ` set fieldValues. fst ` set d) - set [''hint''] \<and>
              set (alters entry) \<inter> set [''hint''] = {} \<and>
              distinct (alters entry) \<and>
              cascades entry = fieldValues" by (elim conjE)
  with m have "\<exists>entry. map_of (createCascadingMap [''hint''] (Some hinted)) ''P'' = Some entry \<and>
              set (alters entry) = (\<Union>d \<in> snd ` set rules. fst ` set d) - set [''hint''] \<and>
              set (alters entry) \<inter> set [''hint''] = {} \<and>
              distinct (alters entry) \<and>
              cascades entry = rules" by fast
  then obtain entry where e: "map_of (createCascadingMap [''hint''] (Some hinted)) ''P'' = Some entry"
     "set (alters entry) = (\<Union>d \<in> snd ` set rules. fst ` set d) - set [''hint'']"
     "set (alters entry) \<inter> set [''hint''] = {}" "distinct (alters entry)" by blast
  from e(2) u have "set (alters entry) = {''X'', ''Y''}" by simp
  moreover from e(3) have "set (alters entry) \<inter> {''hint''} = {}" by simp
  ultimately show ?thesis using d a b e(1) e(4) by blast
qed

section \<open>The Affected-Field Resolver\<close>

text \<open>
  Claim C2. For a parent field \<open>P\<close> that is a key of the Cascade Map: with an empty or
  absent value the result is the duplicate-free union of the non-reserved keys of every
  Cascade Definition of \<open>P\<close>; with a value that has a Cascade Definition it is the
  non-reserved keys of that definition; with any other value it is empty.
\<close>

theorem getAffectedFields_cases:
  assumes "map_of cascadeMap P = Some entry"
  shows "(falsy v \<longrightarrow>
            (\<exists>fs. getAffectedFields rsv cascadeMap P v = Inr fs \<and> distinct fs \<and>
                  set fs = (\<Union>d \<in> snd ` set (cascades entry). fst ` set d) - set rsv)) \<and>
         (\<forall>s d. v = Some s \<and> s \<noteq> [] \<and> map_of (cascades entry) s = Some d \<longrightarrow>
            getAffectedFields rsv cascadeMap P v = Inr (filter (\<lambda>k. k \<notin> set rsv) (map fst d))) \<and>
         (\<forall>s. v = Some s \<and> s \<noteq> [] \<and> map_of (cascades entry) s = None \<longrightarrow>
            getAffectedFields rsv cascadeMap P v = Inr [])"
  using assms
  by (auto simp: getAffectedFields_def falsy_def set_uniq distinct_uniq)

theorem getAffectedFields_cases_witness:
  "getAffectedFields [''hint''] (createCascadingMap [''hint''] (Some hinted)) ''P'' None = Inr [''X'', ''Y''] \<and>
   getAffectedFields [''hint''] (createCascadingMap [''hint''] (Some hinted)) ''P'' (Some ''a'') = Inr [''X''] \<and>
   getAffectedFields [''hint''] (createCascadingMap [''hint''] (Some hinted)) ''P'' (Some ''zz'') = Inr []"
proof -
  define cm where "cm = createCascadingMap [''hint''] (Some hinted)"
  define e where "e = \<lparr>alters = [''X'', ''Y''], cascades = snd (hd hinted)\<rparr>"
  have cm: "cm = [(''P'', e)]"
    by (simp add: cm_def e_def createCascadingMap_def hinted_def collectAlters_def uniq_def)
  have m: "map_of cm ''P'' = Some e" by (simp add: cm)
  have ce: "cascades e = snd (hd hinted)" by (simp add: e_def)
  have a: "map_of (cascades e) ''a'' = Some [(''X'', JSArray [''1'']), (''hint'', JSString ''pick X'')]"
    by (simp add: ce hinted_def)
  have z: "map_of (cascades e) ''zz'' = None"
    by (simp add: ce hinted_def)
  from getAffectedFields_cases[OF m, of "Some ''a''" "[''hint'']"] a
  have 1: "getAffectedFields [''hint''] cm ''P'' (Some ''a'') = Inr [''X'']" by simp
  from getAffectedFields_cases[OF m, of "Some ''zz''" "[''hint'']"] z
  have 2: "getAffectedFields [''hint''] cm ''P'' (Some ''zz'') = Inr []" by simp
  have 3: "getAffectedFields [''hint''] cm ''P'' None = Inr [''X'', ''Y'']"
    by (simp add: getAffectedFields_def cm e_def hinted_def falsy_def uniq_def)
  from 1 2 3 show ?thesis unfolding cm_def by simp
qed

section \<open>The Configuration Validator\<close>

lemma foldl_append_concat:
  "foldl (\<lambda>acc x. acc @ g x) acc0 xs = acc0 @ concat (map g xs)"
  by (induction xs arbitrary: acc0) simp_all

lemma foldl_foldl_append_concat:
  "foldl (\<lambda>acc fv. foldl (\<lambda>acc x. acc @ g x) acc (h fv)) acc0 rs
     = acc0 @ concat (map (\<lambda>fv. concat (map g (h fv))) rs)"
  by (induction rs arbitrary: acc0) (simp_all add: foldl_append_concat)

lemma filter_spec_nestedKeys:
  "filter (\<lambda>k. k \<notin> set fl) (spec_nestedKeys rsv cfg) =
   concat (map (\<lambda>fv. concat (map (\<lambda>d. filter (\<lambda>field. field \<notin> set rsv \<and> field \<notin> set fl) (map fst d))
                                   (map snd fv)))
               (map snd cfg))"
  by (simp add: spec_nestedKeys_def filter_concat comp_def conj_commute)

lemma validateCascades_total:
  "validateCascades rsv fl (Some cfg) =
     (let invalidFieldsTotal = filter (\<lambda>k. k \<notin> set fl) (map fst cfg) @
                  filter (\<lambda>k. k \<notin> set fl) (spec_nestedKeys rsv cfg)
      in if invalidFieldsTotal = [] then Inr None else Inr (Some invalidFieldsTotal))"
  unfolding validateCascades_def filter_spec_nestedKeys
  by (simp add: foldl_foldl_append_concat Let_def)

text \<open>
  Claim C5. For a configuration and a field catalog, the result is \<open>null\<close> exactly when
  every top-level key and every nested key that is not reserved is in the catalog;
  otherwise it is the top-level keys missing from the catalog followed by the nested
  non-reserved keys missing from it.
\<close>

theorem validateCascades_null_iff:
  "(validateCascades rsv fl (Some cfg) = Inr None \<longleftrightarrow>
      set (map fst cfg) \<union> set (spec_nestedKeys rsv cfg) \<subseteq> set fl) \<and>
   (\<not> set (map fst cfg) \<union> set (spec_nestedKeys rsv cfg) \<subseteq> set fl \<longrightarrow>
      validateCascades rsv fl (Some cfg) =
        Inr (Some (filter (\<lambda>k. k \<notin> set fl) (map fst cfg) @
                   filter (\<lambda>k. k \<notin> set fl) (spec_nestedKeys rsv cfg))))"
proof -
  have "filter (\<lambda>k. k \<notin> set fl) (map fst cfg) @
        filter (\<lambda>k. k \<notin> set fl) (spec_nestedKeys rsv cfg) = [] \<longleftrightarrow>
        set (map fst cfg) \<union> set (spec_nestedKeys rsv cfg) \<subseteq> set fl"
    by (auto simp: filter_empty_conv)
  then show ?thesis
    by (simp add: validateCascades_total Let_def)
qed

theorem validateCascades_null_iff_witness:
  "validateCascades [''hint''] [''P'', ''Q'', ''X''] (Some repeated) = Inr None \<and>
   validateCascades [''hint''] [''P'', ''Q''] (Some repeated) = Inr (Some [''X'', ''X'', ''X''])"
proof -
  have n: "spec_nestedKeys [''hint''] repeated = [''X'', ''X'', ''Q'', ''Q'']"
    by (simp add: spec_nestedKeys_def repeated_def)
  have k: "map fst repeated = [''P'', ''X'']" by (simp add: repeated_def)
  from validateCascades_null_iff[of "[''hint'']" "[''P'', ''Q'', ''X'']" repeated]
  have 1: "validateCascades [''hint''] [''P'', ''Q'', ''X''] (Some repeated) = Inr None"
    by (simp add: n k)
  from validateCascades_null_iff[of "[''hint'']" "[''P'', ''Q'']" repeated]
  have 2: "validateCascades [''hint''] [''P'', ''Q''] (Some repeated) = Inr (Some [''X'', ''X'', ''X''])"
    by (simp add: n k)
  from 1 2 show ?thesis by simp
qed

lemma count_list_filter: "count_list (filter P xs) x = (if P x then count_list xs x else 0)"
  by (induction xs) auto

lemma count_list_concat: "count_list (concat xss) x = (\<Sum>xs\<leftarrow>xss. count_list xs x)"
  by (induction xss) auto

text \<open>
  Claim C10. The returned list is not deduplicated. Whenever a name missing from the
  catalog is a top-level key or a non-reserved key of some Cascade Definition, a list is
  returned, and the name occurs in it once for each time it is a top-level key and once
  for each Cascade Definition in which it is a non-reserved key.
\<close>

theorem validateCascades_counts:
  assumes "x \<notin> set fl"
    and "x \<in> set (map fst cfg) \<union> set (spec_nestedKeys rsv cfg)"
  shows "\<exists>invalid. validateCascades rsv fl (Some cfg) = Inr (Some invalid) \<and>
           0 < count_list invalid x \<and>
           count_list invalid x =
             count_list (map fst cfg) x +
             (\<Sum>rules\<leftarrow>map snd cfg. \<Sum>d\<leftarrow>map snd rules.
                count_list (filter (\<lambda>k. k \<notin> set rsv) (map fst d)) x)"
proof -
  define invalid where "invalid = filter (\<lambda>k. k \<notin> set fl) (map fst cfg) @
                  filter (\<lambda>k. k \<notin> set fl) (spec_nestedKeys rsv cfg)"
  from assms have mem: "x \<in> set invalid" by (auto simp: invalid_def)
  then have ne: "invalid \<noteq> []" by auto
  then have ret: "validateCascades rsv fl (Some cfg) = Inr (Some invalid)"
    by (simp add: validateCascades_total Let_def invalid_def)
  from mem have pos: "0 < count_list invalid x"
    by (simp add: count_list_0_iff zero_less_iff_neq_zero)
  have "count_list (spec_nestedKeys rsv cfg) x =
          (\<Sum>rules\<leftarrow>map snd cfg. \<Sum>d\<leftarrow>map snd rules.
              count_list (filter (\<lambda>k. k \<notin> set rsv) (map fst d)) x)"
    by (simp add: spec_nestedKeys_def count_list_concat comp_def)
  with assms(1) have cnt: "count_list invalid x =
             count_list (map fst cfg) x +
             (\<Sum>rules\<leftarrow>map snd cfg. \<Sum>d\<leftarrow>map snd rules.
                count_list (filter (\<lambda>k. k \<notin> set rsv) (map fst d)) x)"
    by (simp add: invalid_def count_list_filter)
  from ret pos cnt show ?thesis by blast
qed

theorem validateCascades_counts_witness:
  "''X'' \<notin> set [''P'', ''Q''] \<and>
   ''X'' \<in> set (map fst repeated) \<union> set (spec_nestedKeys [''hint''] repeated) \<and>
   (\<exists>invalid. validateCascades [''hint''] [''P'', ''Q''] (Some repeated) = Inr (Some invalid) \<and>
      count_list invalid ''X'' = 3)"
proof -
  have x: "''X'' \<notin> set [''P'', ''Q'']" by simp
  have o: "''X'' \<in> set (map fst repeated) \<union> set (spec_nestedKeys [''hint''] repeated)"
    by (simp add: repeated_def spec_nestedKeys_def)
  have n: "count_list (map fst repeated) ''X'' +
             (\<Sum>rules\<leftarrow>map snd repeated. \<Sum>d\<leftarrow>map snd rules.
                count_list (filter (\<lambda>k. k \<notin> set [''hint'']) (map fst d)) ''X'') = 3"
    by (simp add: repeated_def)
  from validateCascades_counts[OF x o] obtain invalid where
    "validateCascades [''hint''] [''P'', ''Q''] (Some repeated) = Inr (Some invalid)"
    "count_list invalid ''X'' =
             count_list (map fst repeated) ''X'' +
             (\<Sum>rules\<leftarrow>map snd repeated. \<Sum>d\<leftarrow>map snd rules.
                count_list (filter (\<lambda>k. k \<notin> set [''hint'']) (map fst d)) ''X'')"
    by blast
  with n have "\<exists>invalid. validateCascades [''hint''] [''P'', ''Q''] (Some repeated) = Inr (Some invalid) \<and>
      count_list invalid ''X'' = 3" by auto
  with x o show ?thesis by blast
qed

section \<open>The Cascade Orchestrator\<close>

text \<open>
  Claim C9. When the triggering field is not a key of the Cascade Map, the pass resolves
  and the only call it issues is \<open>clearError\<close>: no hint, no filter, no error message;
  the host is the one \<open>clearError\<close> leaves, so on a host whose \<open>clearError\<close> keeps the
  filtered allowed values every field's allowed values are as before.
\<close>

theorem performCascading_not_parent:
  assumes "map_of cascadeMap f = None"
  shows "performCascading rsv allFlag svc hint sched cascadeMap f w =
           (Inr (), \<lparr>host = clearError svc (host w), calls = calls w @ [ClearError]\<rparr>) \<and>
         ((\<forall>n. getFilteredAllowedFieldValues svc (clearError svc (host w)) n =
                getFilteredAllowedFieldValues svc (host w) n) \<longrightarrow>
          (\<forall>n. getFilteredAllowedFieldValues svc
                  (host (snd (performCascading rsv allFlag svc hint sched cascadeMap f w))) n =
                getFilteredAllowedFieldValues svc (host w) n))"
  using assms by (simp add: performCascading_def Let_def)

theorem performCascading_not_parent_witness:
  "map_of (createCascadingMap [''hint''] (Some twoParents)) ''Other'' = None \<and>
   performCascading [''hint''] ''All'' memService quietHint id
     (createCascadingMap [''hint''] (Some twoParents)) ''Other''
     \<lparr>host = formOf [(''P1'', ''x''), (''P2'', ''y'')], calls = []\<rparr> =
   (Inr (), \<lparr>host = (formOf [(''P1'', ''x''), (''P2'', ''y'')])\<lparr>hError := None\<rparr>,
             calls = [ClearError]\<rparr>)"
proof -
  have n: "map_of (createCascadingMap [''hint''] (Some twoParents)) ''Other'' = None"
    by (simp add: createCascadingMap_twoParents)
  from performCascading_not_parent[OF n, of "[''hint'']" "''All''" memService quietHint id
      "\<lparr>host = formOf [(''P1'', ''x''), (''P2'', ''y'')], calls = []\<rparr>"] n
  show ?thesis by (simp add: memService_def)
qed

text \<open>
  Claim C8, as the code has it. When the triggering field is a key of the Cascade Map and
  \<open>hintFieldValue\<close> fails, the pass rejects with that failure right after
  \<open>clearError\<close> and the hint: no affected field is resolved, no option computed, no
  filter applied and no value validated.
\<close>

theorem performCascading_hint_failure:
  assumes "map_of cascadeMap f \<noteq> None"
    and "hint cascadeMap f (getFieldValue svc (host w) f) (clearError svc (host w)) = (Some e, h2)"
  shows "performCascading rsv allFlag svc hint sched cascadeMap f w =
           (Inl e, \<lparr>host = h2,
                    calls = calls w @ [ClearError, HintFieldValue f (getFieldValue svc (host w) f)]\<rparr>)"
  using assms by (auto simp: performCascading_def Let_def)

theorem performCascading_hint_failure_witness:
  "map_of (createCascadingMap [''hint''] (Some hinted)) ''P'' \<noteq> None \<and>
   performCascading [''hint''] ''All'' memService failingHint id
     (createCascadingMap [''hint''] (Some hinted)) ''P''
     \<lparr>host = formOf [(''P'', ''b'')], calls = []\<rparr> =
   (Inl (Rejected ''hint''),
    \<lparr>host = (formOf [(''P'', ''b'')])\<lparr>hError := None\<rparr>,
     calls = [ClearError, HintFieldValue ''P'' (Some ''b'')]\<rparr>)"
proof -
  define w where "w = \<lparr>host = formOf [(''P'', ''b'')], calls = []\<rparr>"
  define cm where "cm = createCascadingMap [''hint''] (Some hinted)"
  have k: "map_of cm ''P'' \<noteq> None" by (simp add: cm_def createCascadingMap_hinted)
  have f: "failingHint cm ''P'' (getFieldValue memService (host w) ''P'')
             (clearError memService (host w)) =
           (Some (Rejected ''hint''), (formOf [(''P'', ''b'')])\<lparr>hError := None\<rparr>)"
    by (simp add: failingHint_def memService_def w_def)
  have v: "getFieldValue memService (host w) ''P'' = Some ''b''"
    by (simp add: memService_def w_def formOf_def)
  from performCascading_hint_failure[where cascadeMap=cm and f="''P''" and hint=failingHint
      and svc=memService and w=w and rsv="[''hint'']" and allFlag="''All''" and sched=id, OF k f] k v
  show ?thesis unfolding cm_def w_def by simp
qed

text \<open>
  Claim C8 as the specification states it fails: with a hint that rejects, the pass on
  the two-parent form rejects after \<open>clearError\<close> and the hint and filters nothing, while
  the same pass with a hint that resolves filters \<open>F\<close>.
\<close>

theorem performCascading_hint_failure_counterexample:
  "performCascading [''hint''] ''All'' memService failingHint id
     (createCascadingMap [''hint''] (Some twoParents)) ''P1''
     \<lparr>host = formOf [(''P1'', ''x''), (''P2'', ''y'')], calls = []\<rparr> =
   (Inl (Rejected ''hint''),
    \<lparr>host = (formOf [(''P1'', ''x''), (''P2'', ''y'')])\<lparr>hError := None\<rparr>,
     calls = [ClearError, HintFieldValue ''P1'' (Some ''x'')]\<rparr>) \<and>
   performCascading [''hint''] ''All'' memService quietHint id
     (createCascadingMap [''hint''] (Some twoParents)) ''P1''
     \<lparr>host = formOf [(''P1'', ''x''), (''P2'', ''y'')], calls = []\<rparr> =
   (Inr (),
    \<lparr>host = (formOf [(''P1'', ''x''), (''P2'', ''y'')])
              \<lparr>hFilters := [(''F'', JSArray [''b'', ''c''])], hError := None\<rparr>,
     calls = [ClearError, HintFieldValue ''P1'' (Some ''x''),
              FilterAllowedFieldValues ''F'' (JSArray [''b'', ''c''])]\<rparr>)"
  by (simp add: createCascadingMap_twoParents run_defs)

lemma applyFilters_Cons:
  "applyFilters svc ((n, vs) # es) h = applyFilters svc es (filterAllowedFieldValues svc n vs h)"
  by (simp add: applyFilters_def)

lemma validWhenReached_0:
  "validWhenReached svc h ((n, vs) # es) 0 = validateFilter svc (filterAllowedFieldValues svc n vs h) n"
  by (simp add: validWhenReached_def applyFilters_def)

lemma validWhenReached_Suc:
  "validWhenReached svc h ((n, vs) # es) (Suc j) =
   validWhenReached svc (filterAllowedFieldValues svc n vs h) es j"
  by (simp add: validWhenReached_def applyFilters_Cons)

lemma filterEntries_first_invalid:
  "i < length es \<Longrightarrow> \<forall>j<i. validWhenReached svc (host w) es j \<Longrightarrow>
   \<not> validWhenReached svc (host w) es i \<Longrightarrow>
   filterEntries svc es w =
     \<lparr>host = setError svc (invalidMessage (fst (es ! i))) (applyFilters svc (take (Suc i) es) (host w)),
      calls = calls w @ filterCalls (take (Suc i) es) @ [SetError (invalidMessage (fst (es ! i)))]\<rparr>"
proof (induction es arbitrary: w i)
  case Nil
  then show ?case by simp
next
  case (Cons e es)
  obtain n vs where e: "e = (n, vs)" by (cases e)
  define w1 where "w1 = \<lparr>host = filterAllowedFieldValues svc n vs (host w),
                          calls = calls w @ [FilterAllowedFieldValues n vs]\<rparr>"
  show ?case
  proof (cases i)
    case 0
    with Cons.prems(3) have "\<not> validateFilter svc (filterAllowedFieldValues svc n vs (host w)) n"
      by (simp add: e validWhenReached_0)
    then show ?thesis
      by (simp add: e 0 Let_def applyFilters_def filterCalls_def)
  next
    case (Suc i')
    from Cons.prems(2) Suc have "validWhenReached svc (host w) (e # es) 0" by simp
    then have v0: "validateFilter svc (filterAllowedFieldValues svc n vs (host w)) n"
      by (simp add: e validWhenReached_0)
    have len: "i' < length es" using Cons.prems(1) Suc by simp
    have pre: "\<forall>j<i'. validWhenReached svc (host w1) es j"
    proof (intro allI impI)
      fix j assume "j < i'"
      then have "Suc j < i" using Suc by simp
      with Cons.prems(2) have "validWhenReached svc (host w) (e # es) (Suc j)" by blast
      then show "validWhenReached svc (host w1) es j"
        by (simp add: e validWhenReached_Suc w1_def)
    qed
    have bad: "\<not> validWhenReached svc (host w1) es i'"
      using Cons.prems(3) by (simp add: e Suc validWhenReached_Suc w1_def)
    have step: "filterEntries svc (e # es) w = filterEntries svc es w1"
      using v0 by (simp add: e Let_def w1_def)
    show ?thesis
      unfolding step Cons.IH[OF len pre bad]
      by (simp add: e Suc w1_def applyFilters_Cons filterCalls_def)
  qed
qed

lemma filterEntries_all_valid:
  "\<forall>j<length es. validWhenReached svc (host w) es j \<Longrightarrow>
   filterEntries svc es w =
     \<lparr>host = applyFilters svc es (host w), calls = calls w @ filterCalls es\<rparr>"
proof (induction es arbitrary: w)
  case Nil
  then show ?case by (simp add: applyFilters_def filterCalls_def)
next
  case (Cons e es)
  obtain n vs where e: "e = (n, vs)" by (cases e)
  define w1 where "w1 = \<lparr>host = filterAllowedFieldValues svc n vs (host w),
                          calls = calls w @ [FilterAllowedFieldValues n vs]\<rparr>"
  from Cons.prems have "validWhenReached svc (host w) (e # es) 0" by simp
  then have v0: "validateFilter svc (filterAllowedFieldValues svc n vs (host w)) n"
    by (simp add: e validWhenReached_0)
  have rest: "\<forall>j<length es. validWhenReached svc (host w1) es j"
  proof (intro allI impI)
    fix j assume "j < length es"
    then have "Suc j < length (e # es)" by simp
    with Cons.prems have "validWhenReached svc (host w) (e # es) (Suc j)" by blast
    then show "validWhenReached svc (host w1) es j"
      by (simp add: e validWhenReached_Suc w1_def)
  qed
  have step: "filterEntries svc (e # es) w = filterEntries svc es w1"
    using v0 by (simp add: e Let_def w1_def)
  show ?case
    unfolding step Cons.IH[OF rest]
    by (simp add: e w1_def applyFilters_Cons filterCalls_def)
qed

lemma performCascading_filters:
  assumes "map_of cascadeMap f \<noteq> None"
    and "hint cascadeMap f (getFieldValue svc (host w) f) (clearError svc (host w)) = (None, h2)"
    and "getAffectedFields rsv cascadeMap f (getFieldValue svc (host w) f) = Inr affected"
    and "prepareCascadeOptions allFlag svc sched cascadeMap h2 affected = Inr fieldValues"
  shows "performCascading rsv allFlag svc hint sched cascadeMap f w =
           (Inr (), filterEntries svc (objectEntries fieldValues)
                      \<lparr>host = h2,
                       calls = calls w @ [ClearError, HintFieldValue f (getFieldValue svc (host w) f)]\<rparr>)"
  using assms by (auto simp: performCascading_def Let_def)

lemma mset_objectEntries: "mset (objectEntries obj) = mset obj"
  by (simp add: objectEntries_def case_prod_unfold)

text \<open>
  Claim C3. In a pass that reaches the loop with Field Options \<open>fieldValues\<close>, the loop
  goes over \<open>entries\<close>, the pairs of \<open>fieldValues\<close> in iteration order. A value is valid
  iff it is empty or absent or among the host's filtered allowed values. When entry \<open>i\<close>
  is the first whose field is invalid once its filter is applied, the calls are the
  filters of entries \<open>0..i\<close> in order and then \<open>setError\<close> with the message
  \<open>Field 'name' value is invalid\<close> for the name of field \<open>i\<close>, and no later entry is
  filtered; when every entry is valid, every filter is applied and no error is set.
\<close>

theorem performCascading_first_invalid:
  assumes "map_of cascadeMap f \<noteq> None"
    and "hint cascadeMap f (getFieldValue svc (host w) f) (clearError svc (host w)) = (None, h2)"
    and "getAffectedFields rsv cascadeMap f (getFieldValue svc (host w) f) = Inr affected"
    and "prepareCascadeOptions allFlag svc sched cascadeMap h2 affected = Inr fieldValues"
    and "entries = objectEntries fieldValues"
  shows "mset entries = mset fieldValues \<and>
         (validateFilter svc h n \<longleftrightarrow>
            falsy (getFieldValue svc h n) \<or>
            the (getFieldValue svc h n) \<in> set (getFilteredAllowedFieldValues svc h n)) \<and>
         (\<forall>i<length entries.
            (\<forall>j<i. validWhenReached svc h2 entries j) \<and> \<not> validWhenReached svc h2 entries i \<longrightarrow>
            performCascading rsv allFlag svc hint sched cascadeMap f w =
              (Inr (),
               \<lparr>host = setError svc
                         (''Field '' @ [CHR 0x27] @ fst (entries ! i) @ [CHR 0x27] @ '' value is invalid'')
                         (applyFilters svc (take (Suc i) entries) h2),
                calls = calls w @ [ClearError, HintFieldValue f (getFieldValue svc (host w) f)] @
                        filterCalls (take (Suc i) entries) @
                        [SetError (''Field '' @ [CHR 0x27] @ fst (entries ! i) @ [CHR 0x27] @
                                   '' value is invalid'')]\<rparr>)) \<and>
         ((\<forall>j<length entries. validWhenReached svc h2 entries j) \<longrightarrow>
            performCascading rsv allFlag svc hint sched cascadeMap f w =
              (Inr (),
               \<lparr>host = applyFilters svc entries h2,
                calls = calls w @ [ClearError, HintFieldValue f (getFieldValue svc (host w) f)] @
                        filterCalls entries\<rparr>))"
proof -
  define w2 where "w2 = \<lparr>host = h2,
      calls = calls w @ [ClearError, HintFieldValue f (getFieldValue svc (host w) f)]\<rparr>"
  have run: "performCascading rsv allFlag svc hint sched cascadeMap f w =
               (Inr (), filterEntries svc entries w2)"
    unfolding w2_def assms(5) using assms(1-4) by (rule performCascading_filters)
  have m: "mset entries = mset fieldValues"
    by (simp add: assms(5) mset_objectEntries)
  have a: "validateFilter svc h n \<longleftrightarrow>
            falsy (getFieldValue svc h n) \<or>
            the (getFieldValue svc h n) \<in> set (getFilteredAllowedFieldValues svc h n)"
    by (simp add: validateFilter_def Let_def)
  have b: "performCascading rsv allFlag svc hint sched cascadeMap f w =
              (Inr (),
               \<lparr>host = setError svc
                         (''Field '' @ [CHR 0x27] @ fst (entries ! i) @ [CHR 0x27] @ '' value is invalid'')
                         (applyFilters svc (take (Suc i) entries) h2),
                calls = calls w @ [ClearError, HintFieldValue f (getFieldValue svc (host w) f)] @
                        filterCalls (take (Suc i) entries) @
                        [SetError (''Field '' @ [CHR 0x27] @ fst (entries ! i) @ [CHR 0x27] @
                                   '' value is invalid'')]\<rparr>)"
    if "i < length entries" "\<forall>j<i. validWhenReached svc h2 entries j"
       "\<not> validWhenReached svc h2 entries i" for i
  proof -
    have "filterEntries svc entries w2 =
       \<lparr>host = setError svc (invalidMessage (fst (entries ! i)))
                 (applyFilters svc (take (Suc i) entries) (host w2)),
        calls = calls w2 @ filterCalls (take (Suc i) entries) @
                [SetError (invalidMessage (fst (entries ! i)))]\<rparr>"
      using that by (intro filterEntries_first_invalid) (simp_all add: w2_def)
    then show ?thesis
      unfolding run by (simp add: w2_def invalidMessage_def)
  qed
  have c: "performCascading rsv allFlag svc hint sched cascadeMap f w =
              (Inr (),
               \<lparr>host = applyFilters svc entries h2,
                calls = calls w @ [ClearError, HintFieldValue f (getFieldValue svc (host w) f)] @
                        filterCalls entries\<rparr>)"
    if "\<forall>j<length entries. validWhenReached svc h2 entries j"
  proof -
    have "filterEntries svc entries w2 =
       \<lparr>host = applyFilters svc entries (host w2), calls = calls w2 @ filterCalls entries\<rparr>"
      using that by (intro filterEntries_all_valid) (simp add: w2_def)
    then show ?thesis unfolding run by (simp add: w2_def)
  qed
  from m a b c show ?thesis by blast
qed

theorem performCascading_first_invalid_witness:
  "objectEntries [(''Y'', JSArray []), (''X'', JSArray [''1'', ''2''])] =
     [(''Y'', JSArray []), (''X'', JSArray [''1'', ''2''])] \<and>
   performCascading [''hint''] ''All'' memService quietHint id
     (createCascadingMap [''hint''] (Some hinted)) ''P''
     \<lparr>host = formOf [(''P'', ''b''), (''Y'', ''y1''), (''X'', ''7'')], calls = []\<rparr> =
   (Inr (),
    \<lparr>host = (formOf [(''P'', ''b''), (''Y'', ''y1''), (''X'', ''7'')])
              \<lparr>hFilters := [(''Y'', JSArray [])],
               hError := Some (''Field '' @ [CHR 0x27] @ ''Y'' @ [CHR 0x27] @ '' value is invalid'')\<rparr>,
     calls = [ClearError, HintFieldValue ''P'' (Some ''b''),
              FilterAllowedFieldValues ''Y'' (JSArray []),
              SetError (''Field '' @ [CHR 0x27] @ ''Y'' @ [CHR 0x27] @ '' value is invalid'')]\<rparr>)"
proof -
  define w where "w = \<lparr>host = formOf [(''P'', ''b''), (''Y'', ''y1''), (''X'', ''7'')], calls = []\<rparr>"
  define cm where "cm = createCascadingMap [''hint''] (Some hinted)"
  define h2 where "h2 = (formOf [(''P'', ''b''), (''Y'', ''y1''), (''X'', ''7'')])\<lparr>hError := None\<rparr>"
  define fv :: FieldOptions where "fv = [(''Y'', JSArray []), (''X'', JSArray [''1'', ''2''])]"
  have v: "getFieldValue memService (host w) ''P'' = Some ''b''"
    by (simp add: memService_def w_def formOf_def)
  have k: "map_of cm ''P'' \<noteq> None" by (simp add: cm_def createCascadingMap_hinted)
  have q: "quietHint cm ''P'' (getFieldValue memService (host w) ''P'')
             (clearError memService (host w)) = (None, h2)"
    by (simp add: quietHint_def memService_def w_def h2_def)
  have a: "getAffectedFields [''hint''] cm ''P'' (getFieldValue memService (host w) ''P'') = Inr [''Y'', ''X'']"
    by (simp add: v cm_def createCascadingMap_hinted getAffectedFields_def falsy_def)
  have p: "prepareCascadeOptions ''All'' memService id cm h2 [''Y'', ''X''] = Inr fv"
    by (simp add: cm_def createCascadingMap_hinted h2_def fv_def run_defs)
  have e: "fv = objectEntries fv"
    by (simp add: fv_def objectEntries_def arrayIndex_def isDigit_def)
  have bad: "\<not> validWhenReached memService h2 fv 0"
    by (simp add: validWhenReached_def applyFilters_def fv_def h2_def run_defs)
  from performCascading_first_invalid[where cascadeMap=cm and f="''P''" and hint=quietHint
      and svc=memService and w=w and ?h2.0=h2 and rsv="[''hint'']" and affected="[''Y'', ''X'']"
      and allFlag="''All''" and sched=id and fieldValues=fv and entries=fv, OF k q a p e,
      THEN conjunct2, THEN conjunct2, THEN conjunct1]
  have "\<forall>i<length fv.
            (\<forall>j<i. validWhenReached memService h2 fv j) \<and> \<not> validWhenReached memService h2 fv i \<longrightarrow>
            performCascading [''hint''] ''All'' memService quietHint id cm ''P'' w =
              (Inr (),
               \<lparr>host = setError memService
                         (''Field '' @ [CHR 0x27] @ fst (fv ! i) @ [CHR 0x27] @ '' value is invalid'')
                         (applyFilters memService (take (Suc i) fv) h2),
                calls = calls w @ [ClearError, HintFieldValue ''P'' (getFieldValue memService (host w) ''P'')] @
                        filterCalls (take (Suc i) fv) @
                        [SetError (''Field '' @ [CHR 0x27] @ fst (fv ! i) @ [CHR 0x27] @
                                   '' value is invalid'')]\<rparr>)" .
  moreover have "0 < length fv" by (simp add: fv_def)
  moreover have "\<forall>j<0. validWhenReached memService h2 fv j" by simp
  ultimately have "performCascading [''hint''] ''All'' memService quietHint id cm ''P'' w =
              (Inr (),
               \<lparr>host = setError memService
                         (''Field '' @ [CHR 0x27] @ fst (fv ! 0) @ [CHR 0x27] @ '' value is invalid'')
                         (applyFilters memService (take (Suc 0) fv) h2),
                calls = calls w @ [ClearError, HintFieldValue ''P'' (getFieldValue memService (host w) ''P'')] @
                        filterCalls (take (Suc 0) fv) @
                        [SetError (''Field '' @ [CHR 0x27] @ fst (fv ! 0) @ [CHR 0x27] @
                                   '' value is invalid'')]\<rparr>)"
    using bad by blast
  then have "performCascading [''hint''] ''All'' memService quietHint id
     (createCascadingMap [''hint''] (Some hinted)) ''P''
     \<lparr>host = formOf [(''P'', ''b''), (''Y'', ''y1''), (''X'', ''7'')], calls = []\<rparr> =
   (Inr (),
    \<lparr>host = (formOf [(''P'', ''b''), (''Y'', ''y1''), (''X'', ''7'')])
              \<lparr>hFilters := [(''Y'', JSArray [])],
               hError := Some (''Field '' @ [CHR 0x27] @ ''Y'' @ [CHR 0x27] @ '' value is invalid'')\<rparr>,
     calls = [ClearError, HintFieldValue ''P'' (Some ''b''),
              FilterAllowedFieldValues ''Y'' (JSArray []),
              SetError (''Field '' @ [CHR 0x27] @ ''Y'' @ [CHR 0x27] @ '' value is invalid'')]\<rparr>)"
    unfolding cm_def w_def
    by (simp add: fv_def h2_def v[unfolded w_def, simplified] applyFilters_def filterCalls_def
                  memService_def formOf_def)
  with e show ?thesis by (simp add: fv_def)
qed

section \<open>The Option Intersection Engine\<close>

lemma set_intersection:
  "\<exists>zs. intersection a b = JSArray zs \<and>
        set zs = set (castArrayLikeObject a) \<inter> set (castArrayLikeObject b)"
  by (cases a) (auto simp: intersection_def castArrayLikeObject_def set_uniq)

lemma map_of_accumulate:
  "map_of (accumulate field opts fv) F =
     (if F = field then merge (map_of fv field) opts else map_of fv F)"
  by (simp add: accumulate_def merge_def update_conv' split: option.splits)

lemma cascadeOptions_error: "cascadeOptions allFlag svc h field alterField cascade = Inl e \<Longrightarrow> e = TypeError"
  by (auto simp: cascadeOptions_def leaf_def Let_def split: if_splits option.splits)

lemma cascadeTask_fault:
  "taskFaults allFlag svc h t \<Longrightarrow> cascadeTask allFlag svc h fv t = Inl TypeError"
  by (cases t) (auto simp: taskFaults_def cascadeTask_def split: sum.splits dest: cascadeOptions_error)

lemma cascadeTask_no_fault:
  assumes "\<not> taskFaults allFlag svc h t"
  shows "\<exists>fv'. cascadeTask allFlag svc h fv t = Inr fv' \<and>
           (\<forall>F. map_of fv' F =
                  (if activeFor F t then merge (map_of fv F) (taskValue allFlag svc h t)
                   else map_of fv F))"
proof -
  obtain field alterField cascade where t: "t = (field, alterField, cascade)"
    by (cases t)
  show ?thesis
  proof (cases "field \<in> set (alters cascade)")
    case False
    then show ?thesis by (simp add: t cascadeTask_def activeFor_def)
  next
    case True
    with assms obtain opts where
      opts: "cascadeOptions allFlag svc h field alterField cascade = Inr opts"
      by (cases "cascadeOptions allFlag svc h field alterField cascade")
         (auto simp: t taskFaults_def)
    with True show ?thesis
      by (simp add: t cascadeTask_def activeFor_def taskValue_def map_of_accumulate)
  qed
qed

lemma runTasks_fault:
  "\<exists>t\<in>set ts. taskFaults allFlag svc h t \<Longrightarrow> runTasks allFlag svc h fv ts = Inl TypeError"
proof (induction ts arbitrary: fv)
  case Nil
  then show ?case by simp
next
  case (Cons t ts)
  show ?case
  proof (cases "taskFaults allFlag svc h t")
    case True
    then show ?thesis by (simp add: cascadeTask_fault)
  next
    case False
    from cascadeTask_no_fault[OF False, of fv]
    obtain fv' where "cascadeTask allFlag svc h fv t = Inr fv'" by auto
    moreover from False Cons.prems have "\<exists>t\<in>set ts. taskFaults allFlag svc h t" by auto
    ultimately show ?thesis using Cons.IH by simp
  qed
qed

lemma runTasks_no_fault:
  "\<forall>t\<in>set ts. \<not> taskFaults allFlag svc h t \<Longrightarrow>
   \<exists>fv'. runTasks allFlag svc h fv ts = Inr fv' \<and>
         (\<forall>F. map_of fv' F = foldl merge (map_of fv F) (contributions allFlag svc h F ts))"
proof (induction ts arbitrary: fv)
  case Nil
  then show ?case by (simp add: contributions_def)
next
  case (Cons t ts)
  then have "\<not> taskFaults allFlag svc h t" by simp
  from cascadeTask_no_fault[OF this, of fv] obtain fv1 where
    fv1: "cascadeTask allFlag svc h fv t = Inr fv1"
      "\<And>F. map_of fv1 F = (if activeFor F t then merge (map_of fv F) (taskValue allFlag svc h t)
                   else map_of fv F)" by blast
  from Cons.prems have "\<forall>t\<in>set ts. \<not> taskFaults allFlag svc h t" by simp
  from Cons.IH[OF this, of fv1] obtain fv' where
    fv': "runTasks allFlag svc h fv1 ts = Inr fv'"
      "\<And>F. map_of fv' F = foldl merge (map_of fv1 F) (contributions allFlag svc h F ts)" by blast
  have "map_of fv' F = foldl merge (map_of fv F) (contributions allFlag svc h F (t # ts))" for F
    by (simp add: fv'(2) fv1(2) contributions_def)
  with fv1(1) fv'(1) show ?case by simp
qed

lemma foldl_merge_Some:
  "\<exists>zs. foldl merge (Some a) (c # cs) = Some (JSArray zs) \<and>
        set zs = arr a \<inter> (\<Inter>x\<in>set (c # cs). arr x)"
proof (induction cs arbitrary: a c)
  case Nil
  from set_intersection[of a c] show ?case by (auto simp: merge_def)
next
  case (Cons d cs)
  from set_intersection[of a c] obtain ws where
    ws: "intersection a c = JSArray ws" "set ws = arr a \<inter> arr c" by blast
  from Cons.IH[of "JSArray ws" d] obtain zs where
    zs: "foldl merge (Some (JSArray ws)) (d # cs) = Some (JSArray zs)"
        "set zs = arr (JSArray ws) \<inter> (\<Inter>x\<in>set (d # cs). arr x)" by blast
  have "foldl merge (Some a) (c # d # cs) = Some (JSArray zs)"
    using zs(1) ws(1) by (simp add: merge_def)
  moreover have "set zs = arr a \<inter> (\<Inter>x\<in>set (c # d # cs). arr x)"
    using zs(2) ws(2) by (auto simp: castArrayLikeObject_def)
  ultimately show ?case by blast
qed

lemma foldl_merge_many:
  "\<exists>zs. foldl merge None (a # c # cs) = Some (JSArray zs) \<and>
        set zs = (\<Inter>x\<in>set (a # c # cs). arr x)"
proof -
  from foldl_merge_Some[of a c cs] obtain zs where
    "foldl merge (Some a) (c # cs) = Some (JSArray zs)"
    "set zs = arr a \<inter> (\<Inter>x\<in>set (c # cs). arr x)" by blast
  then show ?thesis by (auto simp: merge_def)
qed

lemma foldl_merge_arrays:
  assumes "cs \<noteq> []" and "\<forall>c\<in>set cs. \<exists>xs. c = JSArray xs"
  shows "\<exists>zs. foldl merge None cs = Some (JSArray zs) \<and> set zs = (\<Inter>x\<in>set cs. arr x)"
proof (cases cs)
  case Nil
  with assms show ?thesis by simp
next
  case (Cons a rest)
  show ?thesis
  proof (cases rest)
    case Nil
    from assms(2) obtain xs where "a = JSArray xs" by (auto simp: Cons)
    then show ?thesis by (simp add: Cons Nil merge_def castArrayLikeObject_def)
  next
    case (Cons c cs')
    then show ?thesis using foldl_merge_many[of a c cs'] by (simp add: \<open>cs = a # rest\<close>)
  qed
qed

lemma foldl_merge_perm:
  assumes "mset cs1 = mset cs2"
  shows "sameOptions (foldl merge None cs1) (foldl merge None cs2)"
proof -
  have len: "length cs1 = length cs2" using assms by (rule mset_eq_length)
  have sets: "set cs1 = set cs2" using assms by (rule mset_eq_setD)
  show ?thesis
  proof (cases cs1)
    case Nil
    with len show ?thesis by (simp add: sameOptions_def)
  next
    case (Cons a rest)
    note c1 = Cons
    show ?thesis
    proof (cases rest)
      case Nil
      with c1 len obtain b where c2: "cs2 = [b]" by (cases cs2) auto
      with sets c1 Nil have "a = b" by simp
      then show ?thesis by (simp add: c1 Nil c2 merge_def sameOptions_def split: jsval.splits)
    next
      case (Cons c cs')
      with c1 len obtain a' c' cs'' where c2: "cs2 = a' # c' # cs''"
        by (cases cs2; cases "tl cs2") auto
      from foldl_merge_many[of a c cs'] obtain zs where
        zs: "foldl merge None cs1 = Some (JSArray zs)" "set zs = (\<Inter>x\<in>set cs1. arr x)"
        by (auto simp: c1 Cons)
      from foldl_merge_many[of a' c' cs''] obtain ys where
        ys: "foldl merge None cs2 = Some (JSArray ys)" "set ys = (\<Inter>x\<in>set cs2. arr x)"
        by (auto simp: c2)
      from zs ys sets show ?thesis by (simp add: sameOptions_def)
    qed
  qed
qed

lemma mset_contributions:
  "mset ts1 = mset ts2 \<Longrightarrow>
   mset (contributions allFlag svc h F ts1) = mset (contributions allFlag svc h F ts2)"
  by (simp add: contributions_def)

text \<open>
  Claim C7. Whatever the order in which the tasks merge their options, the pass either
  throws in both orders or gives, for every field, the same set of allowed values (or the
  same single non-array value); and \<open>intersection\<close> is commutative and idempotent on the
  sets of values.
\<close>

theorem prepareCascadeOptions_any_order:
  assumes "mset (sched1 (cascadeTasks cascadeMap affectedFields)) = mset (cascadeTasks cascadeMap affectedFields)"
    and "mset (sched2 (cascadeTasks cascadeMap affectedFields)) = mset (cascadeTasks cascadeMap affectedFields)"
  shows "((\<exists>fv1 fv2.
            prepareCascadeOptions allFlag svc sched1 cascadeMap h affectedFields = Inr fv1 \<and>
            prepareCascadeOptions allFlag svc sched2 cascadeMap h affectedFields = Inr fv2 \<and>
            (\<forall>F. sameOptions (map_of fv1 F) (map_of fv2 F))) \<or>
          (prepareCascadeOptions allFlag svc sched1 cascadeMap h affectedFields = Inl TypeError \<and>
           prepareCascadeOptions allFlag svc sched2 cascadeMap h affectedFields = Inl TypeError)) \<and>
         set (castArrayLikeObject (intersection a b)) = set (castArrayLikeObject (intersection b a)) \<and>
         set (castArrayLikeObject (intersection a a)) = set (castArrayLikeObject a)"
proof -
  define ts where "ts = cascadeTasks cascadeMap affectedFields"
  have m: "mset (sched1 ts) = mset (sched2 ts)" using assms by (simp add: ts_def)
  then have s: "set (sched1 ts) = set (sched2 ts)" by (rule mset_eq_setD)
  have runs: "(\<exists>fv1 fv2.
            runTasks allFlag svc h [] (sched1 ts) = Inr fv1 \<and>
            runTasks allFlag svc h [] (sched2 ts) = Inr fv2 \<and>
            (\<forall>F. sameOptions (map_of fv1 F) (map_of fv2 F))) \<or>
          (runTasks allFlag svc h [] (sched1 ts) = Inl TypeError \<and>
           runTasks allFlag svc h [] (sched2 ts) = Inl TypeError)"
  proof (cases "\<exists>t\<in>set (sched1 ts). taskFaults allFlag svc h t")
    case True
    moreover from True s have "\<exists>t\<in>set (sched2 ts). taskFaults allFlag svc h t" by simp
    ultimately show ?thesis by (simp add: runTasks_fault)
  next
    case False
    then have n1: "\<forall>t\<in>set (sched1 ts). \<not> taskFaults allFlag svc h t" by simp
    with s have n2: "\<forall>t\<in>set (sched2 ts). \<not> taskFaults allFlag svc h t" by simp
    from runTasks_no_fault[OF n1, of "[]"] obtain fv1 where
      fv1: "runTasks allFlag svc h [] (sched1 ts) = Inr fv1"
        "\<And>F. map_of fv1 F = foldl merge None (contributions allFlag svc h F (sched1 ts))" by auto
    from runTasks_no_fault[OF n2, of "[]"] obtain fv2 where
      fv2: "runTasks allFlag svc h [] (sched2 ts) = Inr fv2"
        "\<And>F. map_of fv2 F = foldl merge None (contributions allFlag svc h F (sched2 ts))" by auto
    have "sameOptions (map_of fv1 F) (map_of fv2 F)" for F
      unfolding fv1(2) fv2(2) by (rule foldl_merge_perm) (rule mset_contributions[OF m])
    with fv1(1) fv2(1) show ?thesis by blast
  qed
  have comm: "set (castArrayLikeObject (intersection a b)) = set (castArrayLikeObject (intersection b a))"
    using set_intersection[of a b] set_intersection[of b a]
    by (auto simp: castArrayLikeObject_def)
  have idem: "set (castArrayLikeObject (intersection a a)) = set (castArrayLikeObject a)"
    using set_intersection[of a a] by (auto simp: castArrayLikeObject_def)
  from runs comm idem show ?thesis
    unfolding prepareCascadeOptions_def ts_def by blast
qed

theorem prepareCascadeOptions_any_order_witness:
  "mset (id (cascadeTasks (createCascadingMap [''hint''] (Some twoParents)) [''F''])) =
     mset (cascadeTasks (createCascadingMap [''hint''] (Some twoParents)) [''F'']) \<and>
   mset (rev (cascadeTasks (createCascadingMap [''hint''] (Some twoParents)) [''F''])) =
     mset (cascadeTasks (createCascadingMap [''hint''] (Some twoParents)) [''F'']) \<and>
   prepareCascadeOptions ''All'' memService id (createCascadingMap [''hint''] (Some twoParents))
        (formOf [(''P1'', ''x''), (''P2'', ''y'')]) [''F''] = Inr [(''F'', JSArray [''b'', ''c''])] \<and>
   (\<exists>fv2.
      prepareCascadeOptions ''All'' memService rev (createCascadingMap [''hint''] (Some twoParents))
        (formOf [(''P1'', ''x''), (''P2'', ''y'')]) [''F''] = Inr fv2 \<and>
      sameOptions (Some (JSArray [''b'', ''c''])) (map_of fv2 ''F''))"
proof -
  define cm where "cm = createCascadingMap [''hint''] (Some twoParents)"
  define h where "h = formOf [(''P1'', ''x''), (''P2'', ''y'')]"
  define fv1 :: FieldOptions where "fv1 = [(''F'', JSArray [''b'', ''c''])]"
  have s1: "mset (id (cascadeTasks cm [''F''])) = mset (cascadeTasks cm [''F''])" by simp
  have s2: "mset (rev (cascadeTasks cm [''F''])) = mset (cascadeTasks cm [''F''])" by simp
  have r1: "prepareCascadeOptions ''All'' memService id cm h [''F''] = Inr fv1"
    by (simp add: cm_def createCascadingMap_twoParents h_def fv1_def run_defs)
  from prepareCascadeOptions_any_order[where ?sched1.0=id and ?sched2.0=rev and cascadeMap=cm
      and affectedFields="[''F'']" and allFlag="''All''" and svc=memService and h=h, OF s1 s2,
      THEN conjunct1] r1
  obtain fv2 where fv2: "prepareCascadeOptions ''All'' memService rev cm h [''F''] = Inr fv2"
     "\<forall>F. sameOptions (map_of fv1 F) (map_of fv2 F)" by auto
  from fv2(2) have "sameOptions (map_of fv1 ''F'') (map_of fv2 ''F'')"
    by (rule spec)
  then have "sameOptions (Some (JSArray [''b'', ''c''])) (map_of fv2 ''F'')"
    by (simp add: fv1_def)
  with s1 s2 r1 fv2(1) show ?thesis unfolding cm_def h_def fv1_def by blast
qed

lemma cascadeOptions_permitted:
  assumes "spec_permitted allFlag svc h F (P, c) = Some xs"
  shows "cascadeOptions allFlag svc h F P c = Inr (JSArray xs)"
  using assms
  by (auto simp: spec_permitted_def cascadeOptions_def optionalLeaf_def leaf_def falsy_def Let_def
           split: option.splits if_splits jsval.splits)

lemma set_active_tasks:
  "set (filter (activeFor F) (cascadeTasks cascadeMap affectedFields)) =
     (if F \<in> set affectedFields
      then (\<lambda>(P, c). (F, P, c)) ` set (constrainingParents cascadeMap F) else {})"
  by (auto simp: cascadeTasks_def activeFor_def constrainingParents_def)

text \<open>
  Where no lookup faults. Whatever the order of the merges, when every parent that alters
  an affected field has permitted values for it (its value is empty, or the entry for its
  value is the sentinel or an explicit list), the pass returns a mapping in which every
  affected field \<open>F\<close> altered by at least one parent has as allowed values the intersection
  of the permitted values of all parents that alter \<open>F\<close>, and no other field has an entry.
  For two parents with the lists \<open>a, b, c\<close> and \<open>b, c, d\<close> the options of \<open>F\<close> are
  \<open>b, c\<close>.
\<close>

theorem prepareCascadeOptions_intersection:
  assumes sched: "mset (sched (cascadeTasks cascadeMap affectedFields)) =
                  mset (cascadeTasks cascadeMap affectedFields)"
    and defined: "\<forall>F\<in>set affectedFields. \<forall>pc\<in>set (constrainingParents cascadeMap F).
                    spec_permitted allFlag svc h F pc \<noteq> None"
  shows "\<exists>fieldValues.
           prepareCascadeOptions allFlag svc sched cascadeMap h affectedFields = Inr fieldValues \<and>
           (\<forall>F. if F \<in> set affectedFields \<and> constrainingParents cascadeMap F \<noteq> []
                then \<exists>xs. map_of fieldValues F = Some (JSArray xs) \<and>
                       set xs = (\<Inter>pc\<in>set (constrainingParents cascadeMap F).
                                   set (the (spec_permitted allFlag svc h F pc)))
                else map_of fieldValues F = None)"
proof -
  define ts where "ts = cascadeTasks cascadeMap affectedFields"
  have sets: "set (sched ts) = set ts" using sched unfolding ts_def by (rule mset_eq_setD)
  have act: "set (filter (activeFor F) (sched ts)) =
     (if F \<in> set affectedFields
      then (\<lambda>(P, c). (F, P, c)) ` set (constrainingParents cascadeMap F) else {})" for F
    using set_active_tasks[of F cascadeMap affectedFields] sets by (simp add: ts_def)
  have val: "taskValue allFlag svc h (F, P, c) =
               JSArray (the (spec_permitted allFlag svc h F (P, c))) \<and>
             \<not> isl (cascadeOptions allFlag svc h F P c)"
    if "F \<in> set affectedFields" "(P, c) \<in> set (constrainingParents cascadeMap F)" for F P c
  proof -
    from defined that obtain xs where "spec_permitted allFlag svc h F (P, c) = Some xs" by blast
    then show ?thesis using cascadeOptions_permitted[of allFlag svc h F P c xs]
      by (simp add: taskValue_def)
  qed
  have nofault: "\<forall>t\<in>set (sched ts). \<not> taskFaults allFlag svc h t"
  proof
    fix t assume t: "t \<in> set (sched ts)"
    obtain F P c where tt: "t = (F, P, c)" by (cases t)
    show "\<not> taskFaults allFlag svc h t"
    proof (cases "F \<in> set (alters c)")
      case False
      then show ?thesis by (simp add: tt taskFaults_def)
    next
      case True
      with t have "t \<in> set (filter (activeFor F) (sched ts))" by (simp add: tt activeFor_def)
      with act[of F] have "F \<in> set affectedFields" "(P, c) \<in> set (constrainingParents cascadeMap F)"
        by (auto simp: tt split: if_splits)
      with val show ?thesis by (simp add: tt taskFaults_def)
    qed
  qed
  from runTasks_no_fault[OF nofault, of "[]"] obtain fv where
    fv: "runTasks allFlag svc h [] (sched ts) = Inr fv"
      "\<And>F. map_of fv F = foldl merge None (contributions allFlag svc h F (sched ts))" by auto
  have res: "if F \<in> set affectedFields \<and> constrainingParents cascadeMap F \<noteq> []
                then \<exists>xs. map_of fv F = Some (JSArray xs) \<and>
                       set xs = (\<Inter>pc\<in>set (constrainingParents cascadeMap F).
                                   set (the (spec_permitted allFlag svc h F pc)))
                else map_of fv F = None" for F
  proof (cases "F \<in> set affectedFields \<and> constrainingParents cascadeMap F \<noteq> []")
    case False
    with act[of F] have "filter (activeFor F) (sched ts) = []"
      by (auto simp: set_empty[symmetric] simp del: set_empty)
    with False show ?thesis by (simp add: fv(2) contributions_def)
  next
    case True
    define cs where "cs = contributions allFlag svc h F (sched ts)"
    have setcs: "set cs = (\<lambda>pc. JSArray (the (spec_permitted allFlag svc h F pc))) `
                    set (constrainingParents cascadeMap F)"
    proof -
      have "set cs = taskValue allFlag svc h ` ((\<lambda>(P, c). (F, P, c)) ` set (constrainingParents cascadeMap F))"
        using act[of F] True by (simp add: cs_def contributions_def)
      also have "\<dots> = (\<lambda>pc. JSArray (the (spec_permitted allFlag svc h F pc))) `
                    set (constrainingParents cascadeMap F)"
        using val True by (force simp: image_image)
      finally show ?thesis .
    qed
    from True have "set (constrainingParents cascadeMap F) \<noteq> {}" by simp
    with setcs have ne: "cs \<noteq> []" by auto
    from setcs have arrs: "\<forall>c\<in>set cs. \<exists>xs. c = JSArray xs" by auto
    from foldl_merge_arrays[OF ne arrs] obtain zs where
      zs: "foldl merge None cs = Some (JSArray zs)" "set zs = (\<Inter>x\<in>set cs. arr x)" by blast
    have "(\<Inter>x\<in>set cs. arr x) = (\<Inter>pc\<in>set (constrainingParents cascadeMap F).
                                   set (the (spec_permitted allFlag svc h F pc)))"
      by (simp add: setcs castArrayLikeObject_def)
    with zs True show ?thesis by (simp add: fv(2) cs_def)
  qed
  from fv(1) res show ?thesis
    unfolding prepareCascadeOptions_def ts_def by blast
qed


theorem prepareCascadeOptions_intersection_witness:
  "mset (rev (cascadeTasks (createCascadingMap [''hint''] (Some twoParents)) [''F''])) =
     mset (cascadeTasks (createCascadingMap [''hint''] (Some twoParents)) [''F'']) \<and>
   (\<exists>fieldValues xs.
      prepareCascadeOptions ''All'' memService rev (createCascadingMap [''hint''] (Some twoParents))
        (formOf [(''P1'', ''x''), (''P2'', ''y'')]) [''F''] = Inr fieldValues \<and>
      map_of fieldValues ''F'' = Some (JSArray xs) \<and> set xs = {''b'', ''c''})"
proof -
  define cm where "cm = createCascadingMap [''hint''] (Some twoParents)"
  define h where "h = formOf [(''P1'', ''x''), (''P2'', ''y'')]"
  define pc1 where "pc1 = (''P1'', \<lparr>alters = [''F''],
      cascades = [(''x'', [(''F'', JSArray [''a'', ''b'', ''c''])])]\<rparr>)"
  define pc2 where "pc2 = (''P2'', \<lparr>alters = [''F'', ''G''],
              cascades = [(''y'', [(''F'', JSArray [''b'', ''c'', ''d''])]),
                          (''w'', [(''G'', JSArray [''g''])])]\<rparr>)"
  have cm: "cm = [pc1, pc2]" by (simp add: cm_def createCascadingMap_twoParents pc1_def pc2_def)
  have s: "mset (rev (cascadeTasks cm [''F''])) = mset (cascadeTasks cm [''F''])" by simp
  have cp: "constrainingParents cm ''F'' = [pc1, pc2]"
    by (simp add: cm constrainingParents_def pc1_def pc2_def)
  have p1: "spec_permitted ''All'' memService h ''F'' pc1 = Some [''a'', ''b'', ''c'']"
    by (simp add: pc1_def h_def spec_permitted_def memService_def formOf_def)
  have p2: "spec_permitted ''All'' memService h ''F'' pc2 = Some [''b'', ''c'', ''d'']"
    by (simp add: pc2_def h_def spec_permitted_def memService_def formOf_def)
  have d: "\<forall>F\<in>set [''F'']. \<forall>pc\<in>set (constrainingParents cm F).
              spec_permitted ''All'' memService h F pc \<noteq> None"
    by (simp add: cp p1 p2)
  from prepareCascadeOptions_intersection[where sched=rev and cascadeMap=cm
      and affectedFields="[''F'']" and allFlag="''All''" and svc=memService and h=h, OF s d]
  obtain fv where
    fv: "prepareCascadeOptions ''All'' memService rev cm h [''F''] = Inr fv"
     and every: "\<forall>F. if F \<in> set [''F''] \<and> constrainingParents cm F \<noteq> []
                then \<exists>xs. map_of fv F = Some (JSArray xs) \<and>
                       set xs = (\<Inter>pc\<in>set (constrainingParents cm F).
                                   set (the (spec_permitted ''All'' memService h F pc)))
                else map_of fv F = None" by blast
  from every have "if ''F'' \<in> set [''F''] \<and> constrainingParents cm ''F'' \<noteq> []
                then \<exists>xs. map_of fv ''F'' = Some (JSArray xs) \<and>
                       set xs = (\<Inter>pc\<in>set (constrainingParents cm ''F'').
                                   set (the (spec_permitted ''All'' memService h ''F'' pc)))
                else map_of fv ''F'' = None" by (rule spec)
  then have "\<exists>xs. map_of fv ''F'' = Some (JSArray xs) \<and>
                       set xs = set [''a'', ''b'', ''c''] \<inter> set [''b'', ''c'', ''d'']"
    by (simp add: cp p1 p2)
  then obtain xs where xs: "map_of fv ''F'' = Some (JSArray xs)"
      "set xs = set [''a'', ''b'', ''c''] \<inter> set [''b'', ''c'', ''d'']" by blast
  have "set [''a'', ''b'', ''c''] \<inter> set [''b'', ''c'', ''d''] = {''b'', ''c''}" by auto
  with xs(2) have "set xs = {''b'', ''c''}" by simp
  with fv xs(1) s show ?thesis unfolding cm_def h_def by blast
qed

text \<open>
  Claim C1 does not hold of the code. On the two-parent configuration with \<open>P1 = x\<close> and
  \<open>P2 = z\<close>, the affected fields of \<open>P1\<close> are \<open>F\<close>, both parents alter \<open>F\<close>, and
  \<open>prepareCascadeOptions\<close> throws in either order of the merges: no mapping is returned,
  where the claim gives \<open>F\<close> an intersection of permitted sets.
\<close>

theorem prepareCascadeOptions_no_mapping:
  "getAffectedFields [''hint''] (createCascadingMap [''hint''] (Some twoParents)) ''P1'' (Some ''x'')
     = Inr [''F''] \<and>
   map fst (constrainingParents (createCascadingMap [''hint''] (Some twoParents)) ''F'')
     = [''P1'', ''P2''] \<and>
   prepareCascadeOptions ''All'' memService id (createCascadingMap [''hint''] (Some twoParents))
     (formOf [(''P1'', ''x''), (''P2'', ''z'')]) [''F''] = Inl TypeError \<and>
   prepareCascadeOptions ''All'' memService rev (createCascadingMap [''hint''] (Some twoParents))
     (formOf [(''P1'', ''x''), (''P2'', ''z'')]) [''F''] = Inl TypeError"
  by (simp add: createCascadingMap_twoParents constrainingParents_def run_defs)

text \<open>
  Claim C6 does not hold of the code. With \<open>P1 = x\<close> and \<open>P2 = z\<close>, a value of \<open>P2\<close>
  without a Cascade Definition, the pass triggered by \<open>P1\<close> reads \<open>cascades[z][F]\<close> and
  throws. With \<open>P2 = w\<close>, whose definition has no entry for \<open>F\<close>, the options that \<open>P2\<close>
  contributes for \<open>F\<close> are \<open>undefined\<close>, and the options computed for \<open>F\<close> are empty.
\<close>

theorem prepareCascadeOptions_faults:
  "performCascading [''hint''] ''All'' memService quietHint id
     (createCascadingMap [''hint''] (Some twoParents)) ''P1''
     \<lparr>host = formOf [(''P1'', ''x''), (''P2'', ''z'')], calls = []\<rparr> =
   (Inl TypeError,
    \<lparr>host = (formOf [(''P1'', ''x''), (''P2'', ''z'')])\<lparr>hError := None\<rparr>,
     calls = [ClearError, HintFieldValue ''P1'' (Some ''x'')]\<rparr>) \<and>
   prepareCascadeOptions ''All'' memService id (createCascadingMap [''hint''] (Some twoParents))
     (formOf [(''P1'', ''x''), (''P2'', ''z'')]) [''F''] = Inl TypeError \<and>
   cascadeOptions ''All'' memService (formOf [(''P1'', ''x''), (''P2'', ''w'')]) ''F'' ''P2''
     (the (map_of (createCascadingMap [''hint''] (Some twoParents)) ''P2'')) = Inr JSUndefined \<and>
   prepareCascadeOptions ''All'' memService id (createCascadingMap [''hint''] (Some twoParents))
     (formOf [(''P1'', ''x''), (''P2'', ''w'')]) [''F''] = Inr [(''F'', JSArray [])]"
  by (simp add: createCascadingMap_twoParents run_defs)

end
